theory Spec2Isabelle
  imports Complex_Main "HOL-Library.AList" "HOL-Library.Log_Nat"
begin

section \<open>Numbers: the doubles \<open>randomCode\<close> computes with\<close>

text \<open>
  \<open>Math.random() * characters.length\<close> multiplies two IEEE 754 binary64 numbers and
  rounds the product to the nearest one, ties to the even significand; \<open>Math.floor\<close>
  then takes the integer part. Only non-negative finite numbers occur. Such a number is
  written as a pair \<open>(m, e)\<close> standing for \<open>m * 2^e\<close>, with a significand
  \<open>0 \<le> m < 2^53\<close> and an exponent \<open>e \<ge> -1074\<close>. Several pairs may stand for
  one number; nothing below depends on which one is taken.

  \<open>nearest_double n k\<close> is the double nearest to \<open>n * 2^k\<close> for a natural number
  \<open>n\<close>: when \<open>n\<close> has more than 53 bits, or \<open>k\<close> is below the least exponent,
  the low bits are rounded away. Overflow to \<open>Infinity\<close> is left out: it needs a
  product of at least \<open>2^1024\<close>, and the products here are below the length of a
  string.
\<close>

type_synonym double = "int \<times> int"

definition precision :: nat where
  "precision = 53"

definition least_exponent :: int where
  "least_exponent = - 1074"

definition round_shift :: "int \<Rightarrow> nat \<Rightarrow> int" where
  "round_shift n s =
     (let q = n div 2 ^ s; r = n mod 2 ^ s
      in if 2 * r < 2 ^ s then q
         else if 2 ^ s < 2 * r then q + 1
         else if even q then q else q + 1)"

definition nearest_double :: "int \<Rightarrow> int \<Rightarrow> double" where
  "nearest_double n k =
     (let s = nat (max (bitlen n - int precision) (least_exponent - k))
      in (round_shift n s, k + int s))"

definition double_times :: "double \<Rightarrow> double \<Rightarrow> double" where
  "double_times x y = nearest_double (fst x * fst y) (snd x + snd y)"

definition Math_floor :: "double \<Rightarrow> int" where
  "Math_floor x =
     (if 0 \<le> snd x then fst x * 2 ^ nat (snd x) else fst x div 2 ^ nat (- snd x))"

text \<open>
  What ECMAScript promises of \<open>Math.random()\<close>: a Number that is at least 0 and less
  than 1. For a pair \<open>(m, e)\<close> with \<open>m > 0\<close> the value is below 1 exactly when
  \<open>e\<close> is negative and \<open>m < 2^(-e)\<close>.
\<close>

definition random_number :: "double \<Rightarrow> bool" where
  "random_number x =
     (0 \<le> fst x \<and> fst x < 2 ^ precision \<and> least_exponent \<le> snd x
      \<and> (fst x = 0 \<or> (snd x < 0 \<and> fst x < 2 ^ nat (- snd x))))"

text \<open>The real number a pair stands for; it is used in proofs only.\<close>

definition valof :: "double \<Rightarrow> real" where
  "valof x = of_int (fst x) * 2 powi (snd x)"

section \<open>Code Space: \<open>randomCode\<close>\<close>

text \<open>
  The source (lines 223--230 of the server module):
  \<^verbatim>\<open>
  function randomCode(length: number = 6): string {
    const characters = "ABCDEFGHIJKLMNOPQRSTUVWXYZ0123456789";
    let result = "";
    for (let i = 0; i < length; i++) {
      result += characters.charAt(Math.floor(Math.random() * characters.length));
    }
    return result;
  }
  \<close>
  \<open>Math.random\<close> is the only effect. A call of \<open>randomCode\<close> is given the
  sequence of numbers its calls of \<open>Math.random\<close> return: \<open>rnd i\<close> is the value
  of the call made in iteration \<open>i\<close>. That the numbers satisfy \<open>random_number\<close> is
  not built in, it is a hypothesis wherever it is needed. \<open>characters.length\<close> is the
  double \<open>(length characters, 0)\<close>. \<open>String.prototype.charAt\<close> returns the empty
  string for a position outside the string, and the model does the same.
\<close>

definition characters :: string where
  "characters = ''ABCDEFGHIJKLMNOPQRSTUVWXYZ0123456789''"

definition charAt :: "string \<Rightarrow> int \<Rightarrow> string" where
  "charAt s pos = (if 0 \<le> pos \<and> pos < int (length s) then [s ! nat pos] else [])"

function randomCode_loop :: "(nat \<Rightarrow> double) \<Rightarrow> nat \<Rightarrow> nat \<Rightarrow> string \<Rightarrow> string" where
  "randomCode_loop rnd len i result =
     (if i < len
      then randomCode_loop rnd len (Suc i)
             (result @ charAt characters
                (Math_floor (double_times (rnd i) (int (length characters), 0))))
      else result)"
  by pat_completeness auto
termination
  by (relation "measure (\<lambda>(rnd, len, i, result). len - i)") auto

declare randomCode_loop.simps [simp del]

definition randomCode :: "(nat \<Rightarrow> double) \<Rightarrow> nat \<Rightarrow> string" where
  "randomCode rnd len = randomCode_loop rnd len 0 []"

section \<open>Messages\<close>

text \<open>
  \<open>onMessage\<close> reads \<open>JSON.parse(e.data.toString())\<close> and uses \<open>data.code\<close>
  without looking at its type, so the field is any JSON value, or absent. A number is
  kept as the string \<open>Number.prototype.toString\<close> gives it: the handler only tests a
  code for truthiness, turns it into a property key and writes it back with
  \<open>JSON.stringify\<close>, and that string decides all three (zero, the one falsy number,
  is \<open>0\<close>). The \<open>location\<close> and \<open>route\<close> fields are passed on untouched and
  are kept as opaque JSON text. \<open>Other\<close> is any message whose \<open>type\<close> is none of
  the three.
\<close>

datatype json_value =
    JNull
  | JBool bool
  | JNumber string
  | JString string
  | JArray "json_value list"
  | JObject "(string \<times> json_value) list"

type_synonym json = string

datatype client_message =
    Advertise "json_value option"
  | Subscribe "json_value option"
  | Location json json
  | Other

datatype server_message =
    Welcome string
  | Advertising json_value
  | Subscribed json_value
  | LocationUpdate json json
  | Error string

text \<open>
  Truthiness (\<open>data.code || ...\<close>, \<open>!code\<close>): \<open>null\<close>, \<open>false\<close>, zero and the
  empty string are falsy, every array and object is truthy. \<open>data_code\<close> is the value
  of \<open>data.code\<close> when it is truthy; an absent field is \<open>undefined\<close>, which is
  falsy.
\<close>

fun truthy :: "json_value \<Rightarrow> bool" where
  "truthy JNull = False"
| "truthy (JBool b) = b"
| "truthy (JNumber s) = (s \<noteq> ''0'')"
| "truthy (JString s) = (s \<noteq> [])"
| "truthy (JArray xs) = True"
| "truthy (JObject kvs) = True"

definition data_code :: "json_value option \<Rightarrow> json_value option" where
  "data_code c = (case c of None \<Rightarrow> None | Some v \<Rightarrow> if truthy v then Some v else None)"

text \<open>
  A value used as a property key (\<open>wsSubscribers[code]\<close>) is converted with
  \<open>ToString\<close>; \<open>None\<close> is a thrown \<open>TypeError\<close>. An array is the
  comma-separated conversion of its elements, with \<open>null\<close> elements empty. An object
  parsed from JSON is \<open>[object Object]\<close>, unless it has a property \<open>toString\<close> of
  its own: that property is not a function, so the conversion goes on to
  \<open>valueOf\<close>, gets no primitive value and throws.
\<close>

fun ToString :: "json_value \<Rightarrow> string option"
  and join :: "json_value list \<Rightarrow> string option" where
  "ToString JNull = Some ''null''"
| "ToString (JBool b) = Some (if b then ''true'' else ''false'')"
| "ToString (JNumber s) = Some s"
| "ToString (JString s) = Some s"
| "ToString (JArray xs) = join xs"
| "ToString (JObject kvs) =
     (if map_of kvs ''toString'' = None then Some ''[object Object]'' else None)"
| "join [] = Some []"
| "join (x # xs) =
     (case (if x = JNull then Some [] else ToString x) of
        None \<Rightarrow> None
      | Some a \<Rightarrow>
          if xs = [] then Some a
          else (case join xs of None \<Rightarrow> None | Some b \<Rightarrow> Some (a @ '','' @ b)))"

section \<open>Connections and the objects the handlers receive\<close>

text \<open>
  The handlers are called by the Bun adapter of the \<open>hono\<close> framework, which is a
  dependency and not part of this repository. For every open, message and close event
  the adapter wraps the connection's socket in a new \<open>WSContext\<close> object and hands
  that object to the handler as \<open>ws\<close>. A \<open>WSContext\<close> is therefore an object
  identity together with the socket it writes to: \<open>send\<close> reaches the socket
  \<open>raw\<close>, and \<open>!==\<close> compares the identities.
\<close>

type_synonym conn = nat

datatype wscontext = WSContext (identity: nat) (raw: conn)

section \<open>The Session Directory: the object \<open>wsSubscribers\<close>\<close>

text \<open>
  \<^verbatim>\<open>let wsSubscribers: Record<string, WSContext<ServerWebSocket>[]> = {};\<close>

  \<open>wsSubscribers\<close> is a plain object literal, so its prototype is
  \<open>Object.prototype\<close>. Reading \<open>wsSubscribers[key]\<close> first looks for an own
  property and then walks the prototype chain. The value read is therefore one of:
  \<open>undefined\<close>; an array of \<open>WSContext\<close> objects; or, for the property names of
  \<open>Object.prototype\<close>, the inherited built-in (a function, or the prototype object
  itself for \<open>__proto__\<close>), which is truthy and has none of the array methods
  \<open>push\<close>, \<open>forEach\<close>, \<open>filter\<close>.
  The own properties are kept as an association list in creation order.
\<close>

datatype jsvalue = Arr "wscontext list" | Inherited

type_synonym directory = "(string \<times> jsvalue) list"

definition object_prototype_names :: "string list" where
  "object_prototype_names =
     [''constructor'', ''__defineGetter__'', ''__defineSetter__'', ''hasOwnProperty'',
      ''__lookupGetter__'', ''__lookupSetter__'', ''isPrototypeOf'',
      ''propertyIsEnumerable'', ''toString'', ''valueOf'', ''__proto__'',
      ''toLocaleString'']"

text \<open>
  \<open>wsSubscribers[key]\<close> as an expression, for a key already converted to a string;
  \<open>None\<close> is \<open>undefined\<close>.
\<close>

definition get_prop :: "directory \<Rightarrow> string \<Rightarrow> jsvalue option" where
  "get_prop d key =
     (case map_of d key of
        Some v \<Rightarrow> Some v
      | None \<Rightarrow> if key \<in> set object_prototype_names then Some Inherited else None)"

text \<open>
  \<open>wsSubscribers[key] = v\<close>. Every name of \<open>Object.prototype\<close> but one is a
  writable data property, so the assignment creates (or overwrites) an own property.
  \<open>__proto__\<close> is an accessor: the assignment calls its setter and creates no own
  property. The only assignment the program can make to that name is of the inherited
  value itself (the prototype the object already has), which changes nothing.
\<close>

definition set_prop :: "directory \<Rightarrow> string \<Rightarrow> jsvalue \<Rightarrow> directory" where
  "set_prop d key v =
     (if key = ''__proto__'' \<and> map_of d key = None then d else AList.update key v d)"

section \<open>The Relay Protocol Handler: \<open>onMessage\<close>\<close>

datatype outcome = Returned | TypeError

text \<open>
  What one handler call does: the directory and the closure variable \<open>advertising\<close>
  after the call, the messages sent (the socket written to and the message, in order),
  and whether the call returned or threw.
\<close>

record reaction =
  dir :: directory
  adv :: json_value
  sent :: "(conn \<times> server_message) list"
  outcome :: outcome

text \<open>
  \<^verbatim>\<open>
  if (data.type === "advertise") {
    const code = data.code || randomCode();
    wsSubscribers[code] = wsSubscribers[code] || [];
    advertising = code;
    ws.send(JSON.stringify({ type: "advertising", code }));
  } else if (data.type === "subscribe") {
    const code = data.code;
    if (!code || !wsSubscribers[code]) {
      ws.send(JSON.stringify({ type: "error", message: "Invalid or unknown code" }));
      return;
    }
    wsSubscribers[code].push(ws);
    ws.send(JSON.stringify({ type: "subscribed", code }));
  } else if (data.type === "location") {
    const subscribers = wsSubscribers[advertising] || [];
    subscribers.forEach(subscriber => {
      if (subscriber !== ws) {
        subscriber.send(JSON.stringify({ type: "location", location: data.location, route: data.route }));
      }
    });
  } else {
    ws.send(JSON.stringify({ type: "error", message: "Unknown message type" }));
  }
  \<close>
  Every \<open>wsSubscribers[...]\<close> first converts the code to a property key, which may
  throw. \<open>push\<close> changes the array in place; an array is always the value of an own
  property. Calling \<open>push\<close> or \<open>forEach\<close> on an inherited built-in throws a
  \<open>TypeError\<close>. A handler that throws has sent nothing and changed nothing up to
  that point.
\<close>

fun onMessage :: "(nat \<Rightarrow> double) \<Rightarrow> directory \<Rightarrow> json_value \<Rightarrow> wscontext \<Rightarrow> client_message \<Rightarrow> reaction" where
  "onMessage rnd d advertising ws (Advertise c) =
     (let code = (case data_code c of Some v \<Rightarrow> v | None \<Rightarrow> JString (randomCode rnd 6))
      in case ToString code of
           None \<Rightarrow> \<lparr>dir = d, adv = advertising, sent = [], outcome = TypeError\<rparr>
         | Some key \<Rightarrow>
             \<lparr>dir = set_prop d key (case get_prop d key of Some v \<Rightarrow> v | None \<Rightarrow> Arr []),
              adv = code, sent = [(raw ws, Advertising code)], outcome = Returned\<rparr>)"
| "onMessage rnd d advertising ws (Subscribe c) =
     (case data_code c of
        None \<Rightarrow>
          \<lparr>dir = d, adv = advertising,
           sent = [(raw ws, Error ''Invalid or unknown code'')], outcome = Returned\<rparr>
      | Some code \<Rightarrow>
          (case ToString code of
             None \<Rightarrow> \<lparr>dir = d, adv = advertising, sent = [], outcome = TypeError\<rparr>
           | Some key \<Rightarrow>
               (case get_prop d key of
                  None \<Rightarrow>
                    \<lparr>dir = d, adv = advertising,
                     sent = [(raw ws, Error ''Invalid or unknown code'')], outcome = Returned\<rparr>
                | Some Inherited \<Rightarrow>
                    \<lparr>dir = d, adv = advertising, sent = [], outcome = TypeError\<rparr>
                | Some (Arr subs) \<Rightarrow>
                    \<lparr>dir = AList.update key (Arr (subs @ [ws])) d, adv = advertising,
                     sent = [(raw ws, Subscribed code)], outcome = Returned\<rparr>)))"
| "onMessage rnd d advertising ws (Location location route) =
     (case ToString advertising of
        None \<Rightarrow> \<lparr>dir = d, adv = advertising, sent = [], outcome = TypeError\<rparr>
      | Some key \<Rightarrow>
          (case get_prop d key of
             None \<Rightarrow> \<lparr>dir = d, adv = advertising, sent = [], outcome = Returned\<rparr>
           | Some Inherited \<Rightarrow> \<lparr>dir = d, adv = advertising, sent = [], outcome = TypeError\<rparr>
           | Some (Arr subscribers) \<Rightarrow>
               \<lparr>dir = d, adv = advertising,
                sent = map (\<lambda>subscriber. (raw subscriber, LocationUpdate location route))
                         (filter (\<lambda>subscriber. identity subscriber \<noteq> identity ws)
                            subscribers),
                outcome = Returned\<rparr>))"
| "onMessage rnd d advertising ws Other =
     \<lparr>dir = d, adv = advertising,
      sent = [(raw ws, Error ''Unknown message type'')], outcome = Returned\<rparr>"

section \<open>The Lifecycle Hook: \<open>onClose\<close>\<close>

text \<open>
  \<^verbatim>\<open>
  onClose(e, ws) {
    // If they are subscribing, remove them from the subscribers list
    for (const code in wsSubscribers) {
      if (wsSubscribers[code]) {
        wsSubscribers[code] = wsSubscribers[code].filter(subscriber => subscriber !== ws);
        if (wsSubscribers[code].length === 0) {
          delete wsSubscribers[code];
        }
      }
    }
  }
  \<close>
  \<open>for ... in\<close> visits the own enumerable keys: first the array indices (canonical
  decimal numerals below \<open>2^32 - 1\<close>) in ascending order, then the other keys in
  creation order. The order only matters when the loop is cut short: \<open>filter\<close>
  called on an inherited built-in throws, and the keys not yet visited stay as they are.
\<close>

definition is_digit :: "char \<Rightarrow> bool" where
  "is_digit c = (c \<in> set ''0123456789'')"

definition numeric_value :: "string \<Rightarrow> int" where
  "numeric_value s = foldl (\<lambda>n c. 10 * n + (of_char c - 48)) 0 s"

definition is_array_index :: "string \<Rightarrow> bool" where
  "is_array_index s =
     (s \<noteq> [] \<and> list_all is_digit s \<and> (length s = 1 \<or> hd s \<noteq> CHR ''0'')
      \<and> numeric_value s < 4294967295)"

definition for_in_keys :: "directory \<Rightarrow> string list" where
  "for_in_keys d =
     (let keys = map fst d
      in sort_key numeric_value (filter is_array_index keys)
         @ filter (\<lambda>k. \<not> is_array_index k) keys)"

fun onClose_loop :: "string list \<Rightarrow> directory \<Rightarrow> wscontext \<Rightarrow> directory \<times> outcome" where
  "onClose_loop [] d ws = (d, Returned)"
| "onClose_loop (code # codes) d ws =
     (case get_prop d code of
        None \<Rightarrow> onClose_loop codes d ws
      | Some Inherited \<Rightarrow> (d, TypeError)
      | Some (Arr subs) \<Rightarrow>
          (let remaining = filter (\<lambda>subscriber. identity subscriber \<noteq> identity ws) subs;
               d1 = set_prop d code (Arr remaining)
           in onClose_loop codes
                (if length remaining = 0 then AList.delete code d1 else d1) ws))"

definition onClose :: "directory \<Rightarrow> wscontext \<Rightarrow> directory \<times> outcome" where
  "onClose d ws = onClose_loop (for_in_keys d) d ws"

section \<open>The server: many connections, one directory\<close>

text \<open>
  \<open>upgradeWebSocket\<close> runs its callback once per connection, so every connection
  has a closure variable \<open>advertising\<close> of its own, initially the empty string; the
  state holds the variable of every connection from the start. An event is one call of
  a handler for a connection; \<open>Message\<close> carries the numbers \<open>Math.random\<close>
  returns during the call. The adapter creates the \<open>WSContext\<close> of each call:
  \<open>allocated\<close> counts the objects created so far, and the next one gets that number
  as its identity. \<open>onOpen\<close> only sends the welcome message.
\<close>

record server =
  wsSubscribers :: directory
  advertising_of :: "conn \<Rightarrow> json_value"
  allocated :: nat

definition init :: server where
  "init = \<lparr>wsSubscribers = [], advertising_of = (\<lambda>c. JString []), allocated = 0\<rparr>"

datatype event =
    Open conn
  | Message conn client_message "nat \<Rightarrow> double"
  | Close conn

fun step :: "server \<Rightarrow> event \<Rightarrow> server \<times> (conn \<times> server_message) list" where
  "step s (Open c) =
     (s\<lparr>allocated := Suc (allocated s)\<rparr>,
      [(raw (WSContext (allocated s) c), Welcome ''Welcome to TrafficCue WebSocket!'')])"
| "step s (Message c m rnd) =
     (let r = onMessage rnd (wsSubscribers s) (advertising_of s c)
                (WSContext (allocated s) c) m
      in (\<lparr>wsSubscribers = dir r, advertising_of = (advertising_of s)(c := adv r),
           allocated = Suc (allocated s)\<rparr>,
          sent r))"
| "step s (Close c) =
     (\<lparr>wsSubscribers = fst (onClose (wsSubscribers s) (WSContext (allocated s) c)),
       advertising_of = advertising_of s, allocated = Suc (allocated s)\<rparr>,
      [])"

fun run :: "server \<Rightarrow> event list \<Rightarrow> server \<times> (conn \<times> server_message) list" where
  "run s [] = (s, [])"
| "run s (e # es) =
     (let (s1, out1) = step s e; (s2, out2) = run s1 es in (s2, out1 @ out2))"

section \<open>Notions the properties are stated with\<close>

text \<open>
  What the loop body of \<open>onClose\<close> leaves under a key: an array loses the objects
  identical to \<open>ws\<close> and the key is deleted when nothing remains; any other value is
  not touched by a loop that returns.
\<close>

definition after_close :: "wscontext \<Rightarrow> jsvalue option \<Rightarrow> jsvalue option" where
  "after_close ws entry =
     (case entry of
        Some (Arr subs) \<Rightarrow>
          if filter (\<lambda>b. identity b \<noteq> identity ws) subs = [] then None
          else Some (Arr (filter (\<lambda>b. identity b \<noteq> identity ws) subs))
      | other \<Rightarrow> other)"



text \<open>
  The property keys of the \<open>advertise\<close> messages among the events (the key of
  \<open>data.code || randomCode()\<close> of each, when it has one); whether an event is an
  \<open>advertise\<close> message of connection \<open>c\<close>; whether the six calls of
  \<open>Math.random\<close> an event may make return numbers in \<open>[0, 1)\<close>; and whether the
  code of an \<open>advertise\<close> message is a string or absent, as the protocol means it to
  be.
\<close>

fun advertised_keys :: "event list \<Rightarrow> string list" where
  "advertised_keys [] = []"
| "advertised_keys (Message c (Advertise code) rnd # es) =
     (case ToString (case data_code code of Some v \<Rightarrow> v | None \<Rightarrow> JString (randomCode rnd 6)) of
        Some key \<Rightarrow> key # advertised_keys es
      | None \<Rightarrow> advertised_keys es)"
| "advertised_keys (other # es) = advertised_keys es"

fun advertise_by :: "conn \<Rightarrow> event \<Rightarrow> bool" where
  "advertise_by c (Message c' (Advertise code) rnd) = (c' = c)"
| "advertise_by c other = False"

fun random_ok :: "event \<Rightarrow> bool" where
  "random_ok (Message c m rnd) = (\<forall>i<6. random_number (rnd i))"
| "random_ok other = True"

fun string_code :: "event \<Rightarrow> bool" where
  "string_code (Message c (Advertise None) rnd) = True"
| "string_code (Message c (Advertise (Some (JString s))) rnd) = True"
| "string_code (Message c (Advertise (Some other)) rnd) = False"
| "string_code other = True"

text \<open>
  Every \<open>WSContext\<close> stored in the directory has an identity below \<open>n\<close>: it was
  created before the object that gets the identity \<open>n\<close>.
\<close>

definition objects_older :: "nat \<Rightarrow> directory \<Rightarrow> bool" where
  "objects_older n d =
     (\<forall>(k, v) \<in> set d. case v of Arr subs \<Rightarrow> (\<forall>b \<in> set subs. identity b < n) | Inherited \<Rightarrow> True)"

section \<open>The rounded product stays below the length\<close>

lemma round_shift_bounds:
  assumes "0 \<le> n"
  shows "0 \<le> round_shift n s" and "2 * (round_shift n s * 2 ^ s) \<le> 2 * n + 2 ^ s"
proof -
  define q where "q = n div 2 ^ s"
  define r where "r = n mod 2 ^ s"
  have n: "n = q * 2 ^ s + r" unfolding q_def r_def by (rule div_mult_mod_eq [symmetric])
  have r: "0 \<le> r" "r < 2 ^ s" by (simp_all add: r_def)
  have q: "0 \<le> q" using assms by (simp add: q_def pos_imp_zdiv_nonneg_iff)
  have rs: "round_shift n s = q \<or> (round_shift n s = q + 1 \<and> 2 ^ s \<le> 2 * r)"
    unfolding round_shift_def q_def [symmetric] r_def [symmetric] by (auto simp: Let_def)
  from rs q show "0 \<le> round_shift n s" by auto
  from rs show "2 * (round_shift n s * 2 ^ s) \<le> 2 * n + 2 ^ s"
  proof
    assume "round_shift n s = q"
    then show ?thesis using n r by (simp add: algebra_simps)
  next
    assume a: "round_shift n s = q + 1 \<and> 2 ^ s \<le> 2 * r"
    then show ?thesis using n r by (simp add: algebra_simps)
  qed
qed

lemma round_shift_zero: "round_shift n 0 = n"
  by (simp add: round_shift_def)

lemma Math_floor_valof: "Math_floor x = \<lfloor>valof x\<rfloor>"
proof (cases "0 \<le> snd x")
  case True
  then have "valof x = of_int (fst x * 2 ^ nat (snd x))"
    by (simp add: valof_def power_int_def)
  with True show ?thesis by (simp add: Math_floor_def del: of_int_mult of_int_power)
next
  case False
  then have "valof x = of_int (fst x) / of_int (2 ^ nat (- snd x))"
    by (simp add: valof_def power_int_def field_simps)
  with False show ?thesis
    by (simp add: Math_floor_def floor_divide_of_int_eq del: of_int_power)
qed

text \<open>
  A number below 1 with a significand of \<open>p\<close> bits is at most \<open>1 - 2^(-p)\<close>: there
  is no double between that and 1.
\<close>

lemma below_power_gap:
  fixes m :: int
  assumes "m < 2 ^ p" and "m < 2 ^ E"
  shows "2 ^ p * m \<le> (2 ^ p - 1) * 2 ^ E"
proof (cases "E \<le> p")
  case True
  define A :: int where "A = 2 ^ (p - E)"
  define B :: int where "B = 2 ^ E"
  have pAB: "(2::int) ^ p = A * B"
    using True by (simp add: A_def B_def power_add [symmetric])
  have A: "0 < A" and B: "0 \<le> B" by (simp_all add: A_def B_def)
  have "m < B" using assms(2) by (simp add: B_def)
  then have "m * A < B * A" using A by simp
  then have "m * A < 2 ^ p" by (simp add: pAB mult.commute)
  then have small: "m * A \<le> 2 ^ p - 1" by simp
  have "2 ^ p * m = (m * A) * B" by (simp add: pAB mult_ac)
  also have "\<dots> \<le> (2 ^ p - 1) * B" using small B by (rule mult_right_mono)
  finally show ?thesis by (simp add: B_def)
next
  case False
  then have le: "(2::int) ^ p \<le> 2 ^ E" by (simp add: power_increasing)
  have pos: "(0::int) \<le> 2 ^ p - 1" by simp
  have "m \<le> 2 ^ p - 1" using assms(1) by simp
  then have "2 ^ p * m \<le> 2 ^ p * (2 ^ p - 1)" by (rule mult_left_mono) simp
  also have "\<dots> \<le> 2 ^ E * (2 ^ p - 1)" using le pos by (rule mult_right_mono)
  finally show ?thesis by (simp add: mult.commute)
qed

text \<open>
  Rounding moves the product of a number \<open>x < 1\<close> and a positive integer \<open>L\<close> by at
  most the fraction \<open>2^(-53)\<close> of itself, and \<open>x \<le> 1 - 2^(-53)\<close>: the rounded
  product is at most \<open>L * (1 - 2^(-106))\<close>, below \<open>L\<close>.
\<close>

lemma random_times_length:
  assumes x: "random_number x" and L: "0 < L"
  shows "0 \<le> valof (double_times x (L, 0))" and "valof (double_times x (L, 0)) < of_int L"
proof -
  obtain m e where xme: "x = (m, e)" by (cases x)
  define n where "n = m * L"
  define s where "s = nat (bitlen n - int precision)"
  define m' where "m' = round_shift n s"
  define X :: real where "X = 2 powi e"
  define t :: real where "t = 1 / 2 ^ precision"
  have m: "0 \<le> m" "m < 2 ^ precision" and e: "least_exponent \<le> e"
    and one: "m = 0 \<or> (e < 0 \<and> m < 2 ^ nat (- e))"
    using x by (auto simp: random_number_def xme)
  have n: "0 \<le> n" using m L by (simp add: n_def)
  have X: "0 < X" by (simp add: X_def)
  have t: "0 < t" by (simp add: t_def)
  have "nat (max (bitlen n - int precision) (least_exponent - e)) = s"
    using e by (simp add: s_def max_def)
  then have y: "double_times x (L, 0) = (m', e + int s)"
    by (simp add: double_times_def nearest_double_def xme n_def [symmetric] m'_def Let_def)
  have val: "valof (double_times x (L, 0)) = of_int m' * 2 ^ s * X"
    unfolding y by (simp add: valof_def X_def power_int_add)
  have m': "0 \<le> m'" and half: "2 * (m' * 2 ^ s) \<le> 2 * n + 2 ^ s"
    using round_shift_bounds [OF n, of s] by (simp_all add: m'_def)
  show "0 \<le> valof (double_times x (L, 0))"
    unfolding val using m' X by simp
  have mX: "of_int m * X \<le> 1 - t"
  proof (cases "m = 0")
    case True
    then show ?thesis using t by (simp add: t_def)
  next
    case False
    with one have neg: "e < 0" and small: "m < 2 ^ nat (- e)" by auto
    have "2 ^ precision * m \<le> (2 ^ precision - 1) * 2 ^ nat (- e)"
      using m(2) small by (rule below_power_gap)
    then have "real_of_int (2 ^ precision * m) \<le> real_of_int ((2 ^ precision - 1) * 2 ^ nat (- e))"
      by (simp only: of_int_le_iff)
    then have ineq: "2 ^ precision * of_int m \<le> (2 ^ precision - 1) * (2::real) ^ nat (- e)"
      by simp
    define B :: real where "B = 2 ^ nat (- e)"
    define P :: real where "P = 2 ^ precision"
    have B: "0 < B" and P: "0 < P" by (simp_all add: B_def P_def)
    have XB: "X = 1 / B"
      using neg by (simp add: X_def B_def power_int_def field_simps)
    from ineq have "P * of_int m \<le> (P - 1) * B" by (simp add: B_def P_def)
    then have "of_int m / B \<le> (P - 1) / P"
      using B P by (simp add: field_simps)
    also have "\<dots> = 1 - 1 / P" using P by (simp add: field_simps)
    finally show ?thesis by (simp add: XB t_def P_def)
  qed
  have scaled: "of_int m' * 2 ^ s \<le> of_int n * (1 + t)"
  proof (cases "s = 0")
    case True
    then have "m' = n" by (simp add: m'_def round_shift_zero)
    with True n t show ?thesis by (simp add: algebra_simps)
  next
    case False
    then have long: "0 < bitlen n - int precision" by (simp add: s_def)
    then have "0 < bitlen n" by simp
    then have npos: "0 < n" by (metis bitlen_eq_zero_iff less_le_not_le linorder_not_le)
    have pp: "0 < precision" by (simp add: precision_def)
    have "nat (bitlen n - 1) = s + (precision - 1)"
      using long pp unfolding s_def by arith
    with bitlen_bounds [OF npos] have "2 ^ (s + (precision - 1)) \<le> n" by simp
    then have "real_of_int (2 ^ (s + (precision - 1))) \<le> of_int n" by (simp only: of_int_le_iff)
    then have "2 ^ s * 2 ^ (precision - 1) \<le> real_of_int n" by (simp add: power_add)
    moreover have "(2::real) ^ precision = 2 * 2 ^ (precision - 1)"
      using pp power_Suc [of "2::real" "precision - 1"] by simp
    ultimately have small: "2 ^ s / 2 \<le> of_int n * t"
      by (simp add: t_def field_simps)
    from half have "real_of_int (2 * (m' * 2 ^ s)) \<le> real_of_int (2 * n + 2 ^ s)"
      by (simp only: of_int_le_iff)
    then have "of_int m' * 2 ^ s \<le> of_int n + 2 ^ s / (2::real)" by simp
    with small show ?thesis by (simp add: algebra_simps)
  qed
  have "valof (double_times x (L, 0)) \<le> of_int n * (1 + t) * X"
    unfolding val using scaled X by (simp add: mult_right_mono)
  also have "\<dots> = of_int L * ((of_int m * X) * (1 + t))"
    by (simp add: n_def algebra_simps)
  also have "\<dots> \<le> of_int L * ((1 - t) * (1 + t))"
    using mX t L by (simp add: mult_left_mono mult_right_mono)
  also have "\<dots> = of_int L * (1 - t * t)" by (simp add: algebra_simps)
  also have "\<dots> < of_int L" using t L by simp
  finally show "valof (double_times x (L, 0)) < of_int L" .
qed

lemma random_index:
  assumes "random_number x" and "0 < L"
  shows "0 \<le> Math_floor (double_times x (L, 0))" and "Math_floor (double_times x (L, 0)) < L"
  using random_times_length [OF assms] by (simp_all add: Math_floor_valof floor_less_iff)

section \<open>The code generator\<close>

lemma charAt_characters:
  assumes "random_number x"
  shows "\<exists>c. charAt characters (Math_floor (double_times x (int (length characters), 0))) = [c]
            \<and> c \<in> set characters"
proof -
  let ?k = "Math_floor (double_times x (int (length characters), 0))"
  have "0 < int (length characters)" by (simp add: characters_def)
  from random_index [OF assms this] have lo: "0 \<le> ?k" and hi: "?k < int (length characters)"
    by simp_all
  from lo hi have "nat ?k < length characters" by (simp add: nat_less_iff)
  then have "characters ! nat ?k \<in> set characters" by (rule nth_mem)
  with lo hi show ?thesis by (simp add: charAt_def)
qed

lemma randomCode_loop_shape:
  "(\<And>j. j < len \<Longrightarrow> random_number (rnd j)) \<Longrightarrow>
   \<exists>cs. randomCode_loop rnd len i result = result @ cs \<and> length cs = len - i
        \<and> set cs \<subseteq> set characters"
proof (induction rnd len i result rule: randomCode_loop.induct)
  case (1 rnd len i result)
  show ?case
  proof (cases "i < len")
    case False
    then show ?thesis by (subst randomCode_loop.simps) simp
  next
    case True
    let ?s = "charAt characters (Math_floor (double_times (rnd i) (int (length characters), 0)))"
    from True "1.prems" obtain c where c: "?s = [c]" "c \<in> set characters"
      using charAt_characters [of "rnd i"] by blast
    from "1.IH" [OF True] "1.prems" obtain cs where
      cs: "randomCode_loop rnd len (Suc i) (result @ ?s) = (result @ ?s) @ cs"
         "length cs = len - Suc i" "set cs \<subseteq> set characters"
      by blast
    have "randomCode_loop rnd len i result = randomCode_loop rnd len (Suc i) (result @ ?s)"
      using True by (subst randomCode_loop.simps) simp
    then have "randomCode_loop rnd len i result = result @ (c # cs)"
      using cs(1) c(1) by simp
    moreover have "length (c # cs) = len - i" using True cs(2) by simp
    moreover have "set (c # cs) \<subseteq> set characters" using c(2) cs(3) by simp
    ultimately show ?thesis by blast
  qed
qed

lemma randomCode_shape:
  assumes "\<And>j. j < len \<Longrightarrow> random_number (rnd j)"
  shows "length (randomCode rnd len) = len \<and> set (randomCode rnd len) \<subseteq> set characters"
  using randomCode_loop_shape [of len rnd 0 "[]"] assms by (auto simp: randomCode_def)

lemma randomCode_nonempty:
  assumes "\<And>j. j < 6 \<Longrightarrow> random_number (rnd j)"
  shows "randomCode rnd 6 \<noteq> []"
  using randomCode_shape [of 6 rnd] assms by auto

text \<open>
  Claim C6. When every call of \<open>Math.random\<close> returns a double that is at least 0 and
  less than 1: for every natural number \<open>n\<close>, \<open>randomCode\<close> called with length
  \<open>n\<close> returns a string of exactly \<open>n\<close> characters, each one of the 36 characters
  A--Z, 0--9; and an \<open>advertise\<close> message with no code (the field absent, or the
  empty string) is answered by exactly one message, \<open>advertising\<close> to the sender,
  whose code is the 6-character string \<open>randomCode\<close> returns.
\<close>

theorem randomCode_length_alphabet:
  assumes "\<forall>i. random_number (rnd i)"
  shows "length (randomCode rnd n) = n
       \<and> set (randomCode rnd n) \<subseteq> set ''ABCDEFGHIJKLMNOPQRSTUVWXYZ0123456789''
       \<and> length ''ABCDEFGHIJKLMNOPQRSTUVWXYZ0123456789'' = 36
       \<and> sent (onMessage rnd d advertising ws (Advertise None))
           = [(raw ws, Advertising (JString (randomCode rnd 6)))]
       \<and> sent (onMessage rnd d advertising ws (Advertise (Some (JString []))))
           = [(raw ws, Advertising (JString (randomCode rnd 6)))]
       \<and> length (randomCode rnd 6) = 6
       \<and> set (randomCode rnd 6) \<subseteq> set ''ABCDEFGHIJKLMNOPQRSTUVWXYZ0123456789''"
proof -
  have shape: "length (randomCode rnd k) = k \<and> set (randomCode rnd k) \<subseteq> set characters" for k
    using randomCode_shape [of k rnd] assms by blast
  have alphabet: "characters = ''ABCDEFGHIJKLMNOPQRSTUVWXYZ0123456789''"
    by (simp add: characters_def)
  have none: "sent (onMessage rnd d advertising ws (Advertise None))
                = [(raw ws, Advertising (JString (randomCode rnd 6)))]"
    by (simp add: data_code_def Let_def)
  have empty: "sent (onMessage rnd d advertising ws (Advertise (Some (JString []))))
                = [(raw ws, Advertising (JString (randomCode rnd 6)))]"
    by (simp add: data_code_def Let_def)
  from shape [of n] shape [of 6] none empty show ?thesis
    unfolding alphabet by simp
qed

theorem randomCode_length_alphabet_witness:
  "(\<forall>i::nat. random_number (6004799503160661, - 53))
   \<and> randomCode (\<lambda>i. (6004799503160661, - 53)) 6 = ''YYYYYY''
   \<and> length (randomCode (\<lambda>i. (6004799503160661, - 53)) 6) = 6
   \<and> set (randomCode (\<lambda>i. (6004799503160661, - 53)) 6)
       \<subseteq> set ''ABCDEFGHIJKLMNOPQRSTUVWXYZ0123456789''
   \<and> sent (onMessage (\<lambda>i. (6004799503160661, - 53)) [] (JString []) (WSContext 0 1)
        (Advertise None)) = [(1, Advertising (JString ''YYYYYY''))]"
proof -
  have number: "random_number (6004799503160661, - 53)"
    by code_simp
  then have draws: "\<forall>i::nat. random_number ((\<lambda>i. (6004799503160661, - 53)) i)" by simp
  have code: "randomCode (\<lambda>i. (6004799503160661, - 53)) 6 = ''YYYYYY''"
    by code_simp
  from randomCode_length_alphabet [OF draws, of 6 "[]" "JString []" "WSContext 0 1"]
    number code
  show ?thesis by simp
qed

section \<open>Reading and writing the directory\<close>

lemma get_prop_own: "map_of d key = Some v \<Longrightarrow> get_prop d key = Some v"
  by (simp add: get_prop_def)

lemma get_prop_Arr_iff: "get_prop d key = Some (Arr subs) \<longleftrightarrow> map_of d key = Some (Arr subs)"
  by (auto simp: get_prop_def split: option.splits)

lemma get_prop_None_iff:
  "get_prop d key = None \<longleftrightarrow> map_of d key = None \<and> key \<notin> set object_prototype_names"
  by (auto simp: get_prop_def split: option.splits)

lemma set_prop_own: "map_of d key \<noteq> None \<Longrightarrow> set_prop d key v = AList.update key v d"
  by (auto simp: set_prop_def)

lemma proto_inherited: "''__proto__'' \<in> set object_prototype_names"
  by (simp add: object_prototype_names_def)

lemma empty_not_inherited: "[] \<notin> set object_prototype_names"
  by (simp add: object_prototype_names_def)

lemma set_prop_fresh:
  "key \<notin> set object_prototype_names \<Longrightarrow> set_prop d key v = AList.update key v d"
  using proto_inherited by (auto simp: set_prop_def)

lemma keys_update_own:
  "map_of d key = Some v \<Longrightarrow> fst ` set (AList.update key v' d) = fst ` set d"
  by (auto simp: dom_update dest: map_of_SomeD intro: rev_image_eqI)

lemma keys_set_prop: "fst ` set (set_prop d key v) \<subseteq> insert key (fst ` set d)"
  by (auto simp: set_prop_def dom_update)

lemma set_update_subset: "set (AList.update k v d) \<subseteq> insert (k, v) (set d)"
  by (induction d) auto

lemma set_delete_subset: "set (AList.delete k d) \<subseteq> set d"
  by (auto simp: AList.delete_eq)

section \<open>Broadcasting a location\<close>

text \<open>
  What the handler does with a \<open>location\<close> message when the advertising code has an
  entry holding a list: it writes to the socket of every object in the list that is not
  the very object \<open>ws\<close> of this call.
\<close>

lemma location_sent:
  assumes "ToString advertising = Some key" and "map_of d key = Some (Arr subs)"
  shows "sent (onMessage rnd d advertising ws (Location location route))
           = map (\<lambda>b. (raw b, LocationUpdate location route))
               (filter (\<lambda>b. identity b \<noteq> identity ws) subs)"
  using assms by (simp add: get_prop_own)

text \<open>
  Claim C1, at an input where the code departs from it. Connection 1 advertises
  \<open>ABC123\<close> and subscribes to it, connection 2 subscribes too, and connection 1 sends
  a \<open>location\<close> message. The object stored for connection 1 by its \<open>subscribe\<close>
  call is not the object its \<open>location\<close> call receives, so
  \<open>subscriber !== ws\<close> holds for it as well: the location is written back to
  connection 1 itself, the last but one message below.
\<close>

theorem location_echoed_to_sender:
  "snd (run init
      [Open 1, Message 1 (Advertise (Some (JString ''ABC123''))) (\<lambda>i. (0, 0)),
       Message 1 (Subscribe (Some (JString ''ABC123''))) (\<lambda>i. (0, 0)),
       Open 2, Message 2 (Subscribe (Some (JString ''ABC123''))) (\<lambda>i. (0, 0)),
       Message 1 (Location ''here'' ''route'') (\<lambda>i. (0, 0))])
     = [(1, Welcome ''Welcome to TrafficCue WebSocket!''),
        (1, Advertising (JString ''ABC123'')),
        (1, Subscribed (JString ''ABC123'')),
        (2, Welcome ''Welcome to TrafficCue WebSocket!''),
        (2, Subscribed (JString ''ABC123'')),
        (1, LocationUpdate ''here'' ''route''),
        (2, LocationUpdate ''here'' ''route'')]"
  by code_simp



section \<open>Subscribing\<close>

text \<open>
  A \<open>subscribe\<close> message with no code, with a falsy code, or with a code whose
  property key has no own entry and is not a name inherited from \<open>Object.prototype\<close>,
  is answered by the one error message and changes nothing.
\<close>

lemma subscribe_rejected:
  assumes "data_code c = None
         \<or> (\<exists>code key. data_code c = Some code \<and> ToString code = Some key
               \<and> map_of d key = None \<and> key \<notin> set object_prototype_names)"
  shows "onMessage rnd d advertising ws (Subscribe c)
           = \<lparr>dir = d, adv = advertising,
              sent = [(raw ws, Error ''Invalid or unknown code'')], outcome = Returned\<rparr>"
  using assms by (auto simp: get_prop_def)

text \<open>
  Claim C3, at the input where the code departs from it. On the empty directory no
  \<open>advertise\<close> has created an entry for \<open>constructor\<close>, yet
  \<open>wsSubscribers["constructor"]\<close> is the inherited function, so the guard
  \<open>!wsSubscribers[code]\<close> does not fire: the handler goes on to call \<open>push\<close> on the
  function and throws. No \<open>error\<close> message is sent.
\<close>

theorem subscribe_inherited_name_throws:
  "map_of (wsSubscribers init) ''constructor'' = None
   \<and> onMessage (\<lambda>i. (0, 0)) (wsSubscribers init) (JString []) (WSContext 0 1)
        (Subscribe (Some (JString ''constructor'')))
       = \<lparr>dir = [], adv = JString [], sent = [], outcome = TypeError\<rparr>
   \<and> snd (step init (Message 1 (Subscribe (Some (JString ''constructor''))) (\<lambda>i. (0, 0)))) = []"
  by (simp add: Let_def init_def get_prop_def data_code_def object_prototype_names_def)

text \<open>
  Claim C4, refuted. Connection 2 subscribes twice to the code connection 1 advertised:
  the list of that code then holds connection 2 twice, once for each call.
\<close>

theorem double_subscribe_counterexample:
  "wsSubscribers (fst (run init
      [Open 1, Message 1 (Advertise (Some (JString ''ABC123''))) (\<lambda>i. (0, 0)),
       Open 2, Message 2 (Subscribe (Some (JString ''ABC123''))) (\<lambda>i. (0, 0)),
       Message 2 (Subscribe (Some (JString ''ABC123''))) (\<lambda>i. (0, 0))]))
     = [(''ABC123'', Arr [WSContext 3 2, WSContext 4 2])]
   \<and> map raw [WSContext 3 2, WSContext 4 2] = [2, 2]
   \<and> count_list [2, 2] (2::nat) = 2"
  by code_simp

text \<open>
  Claim C4, amended. A \<open>subscribe\<close> message for a code whose entry holds a subscriber
  list appends the connection to the end of that list whether or not it is already
  there: the number of its occurrences grows by one (so a connection that subscribes
  twice is present twice), the other entries stay as they are, and the reply is
  \<open>subscribed\<close>.
\<close>

theorem subscribe_appends:
  assumes "data_code c = Some code" and "ToString code = Some key"
    and "map_of d key = Some (Arr subs)"
  shows "map_of (dir (onMessage rnd d advertising ws (Subscribe c))) key
           = Some (Arr (subs @ [ws]))
       \<and> count_list (map raw (subs @ [ws])) (raw ws) = count_list (map raw subs) (raw ws) + 1
       \<and> count_list (subs @ [ws]) ws = count_list subs ws + 1
       \<and> (\<forall>k. k \<noteq> key \<longrightarrow>
             map_of (dir (onMessage rnd d advertising ws (Subscribe c))) k = map_of d k)
       \<and> sent (onMessage rnd d advertising ws (Subscribe c)) = [(raw ws, Subscribed code)]"
  using assms by (simp add: get_prop_own update_conv')

theorem subscribe_appends_witness:
  "map_of (dir (onMessage (\<lambda>i. (0, 0)) [(''ABC123'', Arr [WSContext 3 2])] (JString [])
                 (WSContext 4 2) (Subscribe (Some (JString ''ABC123'')))))
      ''ABC123'' = Some (Arr [WSContext 3 2, WSContext 4 2])
   \<and> count_list (map raw [WSContext 3 2, WSContext 4 2]) 2 = 2"
proof -
  have c: "data_code (Some (JString ''ABC123'')) = Some (JString ''ABC123'')"
    by (simp add: data_code_def)
  have k: "ToString (JString ''ABC123'') = Some ''ABC123''" by simp
  have e: "map_of [(''ABC123'', Arr [WSContext 3 2])] ''ABC123'' = Some (Arr [WSContext 3 2])"
    by simp
  from subscribe_appends [OF c k e, of "\<lambda>i. (0, 0)" "JString []" "WSContext 4 2"]
  show ?thesis by simp
qed

section \<open>Advertising\<close>

text \<open>
  An \<open>advertise\<close> message with a truthy code that has a property key is answered
  with exactly that code, which becomes the connection's advertising code; and unless
  the key is \<open>__proto__\<close> it is a key of the directory afterwards.
\<close>

lemma advertise_reply:
  assumes "data_code c = Some code" and "ToString code = Some key"
  shows "sent (onMessage rnd d advertising ws (Advertise c)) = [(raw ws, Advertising code)]
       \<and> adv (onMessage rnd d advertising ws (Advertise c)) = code"
  using assms by (simp add: Let_def)

lemma advertise_key:
  assumes "data_code c = Some code" and "ToString code = Some key" and "key \<noteq> ''__proto__''"
  shows "key \<in> fst ` set (dir (onMessage rnd d advertising ws (Advertise c)))"
proof -
  have "map_of (AList.update key v d) key \<noteq> None" for v
    by (simp add: update_conv')
  then have "key \<in> fst ` set (AList.update key v d)" for v
    by (metis map_of_eq_None_iff)
  then show ?thesis using assms by (simp add: Let_def set_prop_def)
qed

text \<open>
  Claim C5, at the input where the code departs from it. The client-supplied code
  \<open>__proto__\<close> is confirmed unchanged in the reply, but the assignment
  \<open>wsSubscribers[code] = ...\<close> runs the inherited setter and creates no property: the
  directory has no key \<open>__proto__\<close> afterwards.
\<close>

theorem advertise_proto_creates_no_key:
  "sent (onMessage (\<lambda>i. (0, 0)) [] (JString []) (WSContext 0 1)
          (Advertise (Some (JString ''__proto__''))))
      = [(1, Advertising (JString ''__proto__''))]
   \<and> dir (onMessage (\<lambda>i. (0, 0)) [] (JString []) (WSContext 0 1)
          (Advertise (Some (JString ''__proto__'')))) = []"
  by (simp add: Let_def get_prop_def set_prop_def data_code_def object_prototype_names_def)

text \<open>
  Advertising a code that has an entry leaves the whole directory as it is. Advertising
  a code that has none, and whose key is not a name inherited from
  \<open>Object.prototype\<close>, creates an entry with the empty list and changes no other
  entry; a \<open>subscribe\<close> for the code right after it succeeds.
\<close>

lemma advertise_existing_entry:
  assumes "data_code c = Some code" and "ToString code = Some key"
    and "map_of d key = Some v"
  shows "dir (onMessage rnd d advertising ws (Advertise c)) = d"
  using assms by (simp add: Let_def get_prop_own set_prop_own update_triv)

lemma advertise_absent_entry:
  assumes "data_code c = Some code" and "ToString code = Some key"
    and "map_of d key = None" and "key \<notin> set object_prototype_names"
  shows "map_of (dir (onMessage rnd d advertising ws (Advertise c))) key = Some (Arr [])
       \<and> (\<forall>k. k \<noteq> key \<longrightarrow>
             map_of (dir (onMessage rnd d advertising ws (Advertise c))) k = map_of d k)
       \<and> sent (onMessage rnd (dir (onMessage rnd d advertising ws (Advertise c)))
                 advertising' ws' (Subscribe c)) = [(raw ws', Subscribed code)]"
proof -
  have g: "get_prop d key = None" using assms by (simp add: get_prop_None_iff)
  have d': "dir (onMessage rnd d advertising ws (Advertise c))
              = AList.update key (Arr []) d"
    using assms g by (simp add: Let_def set_prop_fresh)
  have m: "map_of (AList.update key (Arr []) d) key = Some (Arr [])"
    by (simp add: update_conv')
  show ?thesis unfolding d' using assms(1,2) m
    by (simp add: update_conv' get_prop_own)
qed

text \<open>
  Claim C9, at the input where the code departs from it. The code \<open>toString\<close> has no
  entry in the empty directory. Advertising it stores the inherited function under the
  key, not an empty list (\<open>wsSubscribers[code] || []\<close> takes the left operand), and the
  \<open>subscribe\<close> that follows throws instead of succeeding.
\<close>

theorem advertise_inherited_name_no_list:
  "map_of [] ''toString'' = (None :: jsvalue option)
   \<and> dir (onMessage (\<lambda>i. (0, 0)) [] (JString []) (WSContext 0 1)
          (Advertise (Some (JString ''toString'')))) = [(''toString'', Inherited)]
   \<and> onMessage (\<lambda>i. (0, 0))
        (dir (onMessage (\<lambda>i. (0, 0)) [] (JString []) (WSContext 0 1)
               (Advertise (Some (JString ''toString'')))))
        (JString []) (WSContext 1 2) (Subscribe (Some (JString ''toString'')))
       = \<lparr>dir = [(''toString'', Inherited)], adv = JString [], sent = [],
          outcome = TypeError\<rparr>"
  by (simp add: Let_def get_prop_def set_prop_def data_code_def object_prototype_names_def)

section \<open>Closing a connection\<close>

lemma onClose_loop_arrays:
  assumes "distinct codes" and "\<forall>k \<in> set codes. \<exists>subs. map_of d k = Some (Arr subs)"
  shows "snd (onClose_loop codes d ws) = Returned
       \<and> (\<forall>k. map_of (fst (onClose_loop codes d ws)) k
               = (if k \<in> set codes then after_close ws (map_of d k) else map_of d k))"
  using assms
proof (induction codes arbitrary: d)
  case Nil
  then show ?case by simp
next
  case (Cons code codes)
  from Cons.prems obtain subs where subs: "map_of d code = Some (Arr subs)" by auto
  let ?remaining = "filter (\<lambda>b. identity b \<noteq> identity ws) subs"
  let ?d1 = "AList.update code (Arr ?remaining) d"
  let ?d2 = "if length ?remaining = 0 then AList.delete code ?d1 else ?d1"
  have unfold: "onClose_loop (code # codes) d ws = onClose_loop codes ?d2 ws"
    using subs by (simp add: get_prop_own set_prop_own Let_def)
  have d2: "map_of ?d2 k = (if k = code then after_close ws (map_of d code) else map_of d k)" for k
    using subs by (simp add: update_conv' delete_conv' after_close_def)
  have dist: "distinct codes" and notin: "code \<notin> set codes" using Cons.prems(1) by auto
  have arrays: "\<forall>k \<in> set codes. \<exists>subs. map_of ?d2 k = Some (Arr subs)"
  proof
    fix k assume k: "k \<in> set codes"
    with notin have "k \<noteq> code" by auto
    with k Cons.prems(2) show "\<exists>subs. map_of ?d2 k = Some (Arr subs)"
      unfolding d2 by auto
  qed
  have IH: "snd (onClose_loop codes ?d2 ws) = Returned
       \<and> (\<forall>k. map_of (fst (onClose_loop codes ?d2 ws)) k
               = (if k \<in> set codes then after_close ws (map_of ?d2 k) else map_of ?d2 k))"
    by (rule Cons.IH [OF dist arrays])
  show ?case unfolding unfold using IH notin unfolding d2 by auto
qed

lemma set_for_in_keys: "set (for_in_keys d) = fst ` set d"
  by (auto simp: for_in_keys_def Let_def)

lemma distinct_for_in_keys: "distinct (map fst d) \<Longrightarrow> distinct (for_in_keys d)"
  by (auto simp: for_in_keys_def Let_def)

lemma onClose_arrays:
  assumes "distinct (map fst d)" and "\<forall>(k, v) \<in> set d. v \<noteq> Inherited"
  shows "snd (onClose d ws) = Returned
       \<and> (\<forall>k. map_of (fst (onClose d ws)) k = after_close ws (map_of d k))"
proof -
  have arrays: "\<forall>k \<in> set (for_in_keys d). \<exists>subs. map_of d k = Some (Arr subs)"
  proof
    fix k assume "k \<in> set (for_in_keys d)"
    then have "k \<in> fst ` set d" by (simp add: set_for_in_keys)
    then obtain v where v: "map_of d k = Some v"
      by (metis map_of_eq_None_iff not_Some_eq)
    then have "(k, v) \<in> set d" by (rule map_of_SomeD)
    with assms(2) have "v \<noteq> Inherited" by auto
    with v show "\<exists>subs. map_of d k = Some (Arr subs)" by (cases v) auto
  qed
  have absent: "map_of d k = after_close ws (map_of d k)" if "k \<notin> set (for_in_keys d)" for k
  proof -
    from that have "map_of d k = None" by (simp add: set_for_in_keys map_of_eq_None_iff)
    then show ?thesis by (simp add: after_close_def)
  qed
  from onClose_loop_arrays [OF distinct_for_in_keys [OF assms(1)] arrays, of ws] absent
  show ?thesis by (auto simp: onClose_def)
qed

text \<open>
  What the handler does on close, in a directory whose entries all hold lists: every
  list loses the objects identical to the \<open>ws\<close> of the call; an entry is deleted
  exactly when its list is empty after that, whether the removal emptied it or it was
  empty before; no entry is created; and an entry whose list is not empty and does not
  contain that object stays as it is.
\<close>

lemma close_filters_and_prunes:
  assumes "distinct (map fst d)" and "\<forall>(k, v) \<in> set d. v \<noteq> Inherited"
  shows "snd (onClose d ws) = Returned
       \<and> (\<forall>code subs. map_of d code = Some (Arr subs) \<longrightarrow>
             map_of (fst (onClose d ws)) code
               = (if filter (\<lambda>b. identity b \<noteq> identity ws) subs = [] then None
                  else Some (Arr (filter (\<lambda>b. identity b \<noteq> identity ws) subs))))
       \<and> (\<forall>code. map_of d code = None \<longrightarrow> map_of (fst (onClose d ws)) code = None)
       \<and> (\<forall>code subs. map_of d code = Some (Arr subs)
              \<and> (\<forall>b \<in> set subs. identity b \<noteq> identity ws) \<and> subs \<noteq> [] \<longrightarrow>
             map_of (fst (onClose d ws)) code = Some (Arr subs))"
proof -
  have ret: "snd (onClose d ws) = Returned"
    and eq: "map_of (fst (onClose d ws)) k = after_close ws (map_of d k)" for k
    using onClose_arrays [OF assms, of ws] by auto
  have removed: "map_of (fst (onClose d ws)) code
               = (if filter (\<lambda>b. identity b \<noteq> identity ws) subs = [] then None
                  else Some (Arr (filter (\<lambda>b. identity b \<noteq> identity ws) subs)))"
    if "map_of d code = Some (Arr subs)" for code subs
    using that by (simp add: eq after_close_def)
  have absent: "map_of (fst (onClose d ws)) code = None" if "map_of d code = None" for code
    using that by (simp add: eq after_close_def)
  have kept: "map_of (fst (onClose d ws)) code = Some (Arr subs)"
    if "map_of d code = Some (Arr subs)
          \<and> (\<forall>b \<in> set subs. identity b \<noteq> identity ws) \<and> subs \<noteq> []" for code subs
  proof -
    from that have "filter (\<lambda>b. identity b \<noteq> identity ws) subs = subs"
      by (auto simp: filter_id_conv)
    with that show ?thesis by (simp add: removed)
  qed
  from ret removed absent kept show ?thesis by blast
qed

text \<open>
  An entry with an empty list goes at the close of any connection: connection 1
  advertises \<open>ABC123\<close>, and the close of connection 2, which never subscribed,
  deletes the entry.
\<close>

lemma close_deletes_empty_entry:
  "wsSubscribers (fst (run init
      [Open 1, Message 1 (Advertise (Some (JString ''ABC123''))) (\<lambda>i. (0, 0)), Open 2]))
     = [(''ABC123'', Arr [])]
   \<and> wsSubscribers (fst (run init
      [Open 1, Message 1 (Advertise (Some (JString ''ABC123''))) (\<lambda>i. (0, 0)), Open 2, Close 2]))
     = []"
  by code_simp

text \<open>
  Claim C2, at an input where the code departs from it. Connection 1 advertises
  \<open>ABC123\<close>, connection 2 subscribes and then closes. \<open>onClose\<close> receives an
  object of its own, \<open>subscriber !== ws\<close> holds for the object stored by the
  \<open>subscribe\<close> call, and the filter keeps it: connection 2 is still in the list after
  its close, the entry is not deleted, and the next \<open>location\<close> message of
  connection 1 is written to the closed connection.
\<close>

theorem closed_subscriber_stays:
  "wsSubscribers (fst (run init
      [Open 1, Message 1 (Advertise (Some (JString ''ABC123''))) (\<lambda>i. (0, 0)),
       Open 2, Message 2 (Subscribe (Some (JString ''ABC123''))) (\<lambda>i. (0, 0)), Close 2]))
     = [(''ABC123'', Arr [WSContext 3 2])]
   \<and> snd (step (fst (run init
      [Open 1, Message 1 (Advertise (Some (JString ''ABC123''))) (\<lambda>i. (0, 0)),
       Open 2, Message 2 (Subscribe (Some (JString ''ABC123''))) (\<lambda>i. (0, 0)), Close 2]))
      (Message 1 (Location ''here'' ''route'') (\<lambda>i. (0, 0))))
     = [(2, LocationUpdate ''here'' ''route'')]"
  by code_simp

section \<open>Stored objects are older than the object of the call\<close>

lemma objects_older_mono: "objects_older n d \<Longrightarrow> n \<le> n' \<Longrightarrow> objects_older n' d"
  by (fastforce simp: objects_older_def split: jsvalue.splits)

lemma objects_older_subset:
  "objects_older n d \<Longrightarrow> set d' \<subseteq> set d \<Longrightarrow> objects_older n d'"
  by (auto simp: objects_older_def)

lemma objects_older_update:
  assumes "objects_older n d" and "\<forall>b \<in> set subs. identity b < n"
  shows "objects_older n (AList.update key (Arr subs) d)"
proof -
  have "set (AList.update key (Arr subs) d) \<subseteq> insert (key, Arr subs) (set d)"
    by (rule set_update_subset)
  with assms show ?thesis by (fastforce simp: objects_older_def)
qed

lemma objects_older_entry:
  "objects_older n d \<Longrightarrow> map_of d key = Some (Arr subs) \<Longrightarrow> \<forall>b \<in> set subs. identity b < n"
  by (fastforce simp: objects_older_def dest: map_of_SomeD)

lemma objects_older_set_prop:
  assumes "objects_older n d"
  shows "objects_older n (set_prop d key (case get_prop d key of Some v \<Rightarrow> v | None \<Rightarrow> Arr []))"
proof (cases "map_of d key")
  case None
  have "set (AList.update key v d) \<subseteq> insert (key, v) (set d)" for v
    by (rule set_update_subset)
  then have "objects_older n (AList.update key v d)" if "v = Arr [] \<or> v = Inherited" for v
    using assms that by (fastforce simp: objects_older_def)
  with None assms show ?thesis by (auto simp: set_prop_def get_prop_def)
next
  case (Some v)
  then have "AList.update key v d = d" by (rule update_triv)
  with Some assms show ?thesis by (simp add: set_prop_def get_prop_def)
qed

lemma onMessage_objects_older:
  assumes "objects_older n d" and "identity ws = n"
  shows "objects_older (Suc n) (dir (onMessage rnd d a ws m))"
proof -
  have older: "objects_older (Suc n) d" using assms(1) by (rule objects_older_mono) simp
  show ?thesis
  proof (cases m)
    case (Advertise c)
    then show ?thesis using objects_older_set_prop [OF older] older
      by (simp add: Let_def split: option.splits)
  next
    case (Subscribe c)
    have "objects_older (Suc n) (AList.update key (Arr (subs @ [ws])) d)"
      if "map_of d key = Some (Arr subs)" for key subs
    proof (rule objects_older_update [OF older])
      from objects_older_entry [OF older that] assms(2)
      show "\<forall>b \<in> set (subs @ [ws]). identity b < Suc n" by auto
    qed
    with Subscribe older show ?thesis
      by (auto simp: get_prop_Arr_iff split: option.splits jsvalue.splits)
  next
    case (Location l r)
    with older show ?thesis by (auto split: option.splits jsvalue.splits)
  next
    case Other
    with older show ?thesis by simp
  qed
qed

lemma onClose_loop_objects_older:
  "objects_older n d \<Longrightarrow> objects_older n (fst (onClose_loop codes d ws))"
proof (induction codes arbitrary: d)
  case Nil
  then show ?case by simp
next
  case (Cons code codes)
  show ?case
  proof (cases "get_prop d code")
    case None
    then show ?thesis using Cons.IH [OF Cons.prems] by simp
  next
    case (Some v)
    show ?thesis
    proof (cases v)
      case Inherited
      with Some Cons.prems show ?thesis by simp
    next
      case (Arr subs)
      with Some have own: "map_of d code = Some (Arr subs)" by (simp add: get_prop_Arr_iff)
      let ?remaining = "filter (\<lambda>b. identity b \<noteq> identity ws) subs"
      let ?d1 = "AList.update code (Arr ?remaining) d"
      let ?d2 = "if length ?remaining = 0 then AList.delete code ?d1 else ?d1"
      have unfold: "onClose_loop (code # codes) d ws = onClose_loop codes ?d2 ws"
        using Some Arr own by (simp add: set_prop_own Let_def)
      have "\<forall>b \<in> set ?remaining. identity b < n"
        using objects_older_entry [OF Cons.prems own] by auto
      then have d1: "objects_older n ?d1" by (rule objects_older_update [OF Cons.prems])
      have "objects_older n ?d2"
      proof (cases "length ?remaining = 0")
        case True
        then have e: "?d2 = AList.delete code ?d1" by simp
        show ?thesis unfolding e
          using d1 set_delete_subset [of code ?d1] by (rule objects_older_subset)
      next
        case False
        then have e: "?d2 = ?d1" by simp
        show ?thesis unfolding e by (rule d1)
      qed
      then show ?thesis unfolding unfold by (rule Cons.IH)
    qed
  qed
qed

lemma step_objects_older:
  assumes "objects_older (allocated s) (wsSubscribers s)"
  shows "objects_older (allocated (fst (step s e))) (wsSubscribers (fst (step s e)))"
proof (cases e)
  case (Open c)
  with assms show ?thesis by (simp add: objects_older_mono)
next
  case (Message c m rnd)
  with onMessage_objects_older [OF assms, of "WSContext (allocated s) c" rnd "advertising_of s c" m]
  show ?thesis by (simp add: Let_def)
next
  case (Close c)
  have "objects_older (Suc (allocated s)) (wsSubscribers s)"
    using assms by (rule objects_older_mono) simp
  then have "objects_older (Suc (allocated s))
      (fst (onClose_loop (for_in_keys (wsSubscribers s)) (wsSubscribers s)
              (WSContext (allocated s) c)))"
    by (rule onClose_loop_objects_older)
  with Close show ?thesis by (simp add: onClose_def)
qed

lemma run_objects_older:
  "objects_older (allocated s) (wsSubscribers s) \<Longrightarrow>
   objects_older (allocated (fst (run s evs))) (wsSubscribers (fst (run s evs)))"
proof (induction evs arbitrary: s)
  case Nil
  then show ?case by simp
next
  case (Cons e evs)
  obtain s1 out1 where st: "step s e = (s1, out1)" by (cases "step s e")
  obtain s2 out2 where rn: "run s1 evs = (s2, out2)" by (cases "run s1 evs")
  have r: "run s (e # evs) = (s2, out1 @ out2)" using st rn by simp
  have "objects_older (allocated s1) (wsSubscribers s1)"
    using step_objects_older [OF Cons.prems, of e] st by simp
  from Cons.IH [OF this] rn show ?case unfolding r by simp
qed

lemma reachable_objects_older:
  "objects_older (allocated (fst (run init evs))) (wsSubscribers (fst (run init evs)))"
  by (rule run_objects_older) (simp add: init_def objects_older_def)

text \<open>
  So on the server the comparison \<open>subscriber !== ws\<close> never fails for a stored
  object. A \<open>location\<close> message reaches the socket of every object in the list of the
  advertising code, the sender's own included when it has subscribed; and a close
  removes nobody: all it can do is delete the entries whose lists are empty.
\<close>

lemma location_reaches_every_subscriber:
  assumes "ToString (advertising_of (fst (run init evs)) c) = Some key"
    and "map_of (wsSubscribers (fst (run init evs))) key = Some (Arr subs)"
  shows "snd (step (fst (run init evs)) (Message c (Location location route) rnd))
           = map (\<lambda>b. (raw b, LocationUpdate location route)) subs"
proof -
  let ?s = "fst (run init evs)"
  have "\<forall>b \<in> set subs. identity b < allocated ?s"
    using objects_older_entry [OF reachable_objects_older assms(2)] .
  then have "filter (\<lambda>b. identity b \<noteq> identity (WSContext (allocated ?s) c)) subs = subs"
    by (auto simp: filter_id_conv)
  with location_sent [OF assms, of rnd "WSContext (allocated ?s) c" location route]
  show ?thesis by (simp add: Let_def)
qed

lemma close_keeps_subscribers:
  assumes "distinct (map fst (wsSubscribers (fst (run init evs))))"
    and "\<forall>(k, v) \<in> set (wsSubscribers (fst (run init evs))). v \<noteq> Inherited"
  shows "map_of (wsSubscribers (fst (step (fst (run init evs)) (Close c)))) key
           = (case map_of (wsSubscribers (fst (run init evs))) key of
                Some (Arr []) \<Rightarrow> None
              | other \<Rightarrow> other)"
proof -
  let ?s = "fst (run init evs)"
  let ?ws = "WSContext (allocated ?s) c"
  have eq: "map_of (fst (onClose (wsSubscribers ?s) ?ws)) key
              = after_close ?ws (map_of (wsSubscribers ?s) key)"
    using onClose_arrays [OF assms, of ?ws] by simp
  have "after_close ?ws (map_of (wsSubscribers ?s) key)
          = (case map_of (wsSubscribers ?s) key of Some (Arr []) \<Rightarrow> None | other \<Rightarrow> other)"
  proof (cases "map_of (wsSubscribers ?s) key")
    case None
    then show ?thesis by (simp add: after_close_def)
  next
    case (Some v)
    show ?thesis
    proof (cases v)
      case Inherited
      with Some show ?thesis by (simp add: after_close_def)
    next
      case (Arr subs)
      with Some have "\<forall>b \<in> set subs. identity b < allocated ?s"
        using objects_older_entry [OF reachable_objects_older, of evs key subs] by simp
      then have "filter (\<lambda>b. identity b \<noteq> identity ?ws) subs = subs"
        by (auto simp: filter_id_conv)
      with Some Arr show ?thesis by (cases subs) (simp_all add: after_close_def)
    qed
  qed
  with eq show ?thesis by simp
qed

section \<open>The advertising code of a connection\<close>








section \<open>The keys of the directory\<close>

lemma onMessage_keys:
  "fst ` set (dir (onMessage rnd d a ws m))
     \<subseteq> fst ` set d \<union> set (advertised_keys [Message c m rnd])"
proof (cases m)
  case (Advertise code)
  then show ?thesis using keys_set_prop by (auto simp: Let_def split: option.splits)
next
  case (Subscribe code)
  then show ?thesis
    by (auto simp: get_prop_Arr_iff keys_update_own split: option.splits jsvalue.splits)
next
  case (Location l r)
  then show ?thesis by (auto split: option.splits jsvalue.splits)
qed auto

lemma onMessage_keep_keys:
  "fst ` set (dir (onMessage rnd d a ws (Subscribe code))) = fst ` set d"
  "fst ` set (dir (onMessage rnd d a ws (Location l r))) = fst ` set d"
  by (auto simp: get_prop_Arr_iff keys_update_own split: option.splits jsvalue.splits)

lemma onClose_loop_keys: "fst ` set (fst (onClose_loop codes d ws)) \<subseteq> fst ` set d"
proof (induction codes arbitrary: d)
  case Nil
  then show ?case by simp
next
  case (Cons code codes)
  show ?case
  proof (cases "get_prop d code")
    case None
    then show ?thesis using Cons.IH [of d] by simp
  next
    case (Some v)
    show ?thesis
    proof (cases v)
      case Inherited
      with Some show ?thesis by simp
    next
      case (Arr subs)
      with Some have own: "map_of d code = Some (Arr subs)" by (simp add: get_prop_Arr_iff)
      let ?remaining = "filter (\<lambda>b. identity b \<noteq> identity ws) subs"
      let ?d1 = "AList.update code (Arr ?remaining) d"
      let ?d2 = "if length ?remaining = 0 then AList.delete code ?d1 else ?d1"
      have unfold: "onClose_loop (code # codes) d ws = onClose_loop codes ?d2 ws"
        using Some Arr own by (simp add: set_prop_own Let_def)
      have same: "fst ` set ?d1 = fst ` set d"
        using keys_update_own [OF own] .
      have "fst ` set ?d2 \<subseteq> fst ` set d"
      proof (cases "length ?remaining = 0")
        case True
        then have e: "?d2 = AList.delete code ?d1" by simp
        show ?thesis unfolding e using dom_delete_subset [of code ?d1] same by blast
      next
        case False
        then have e: "?d2 = ?d1" by simp
        show ?thesis unfolding e using same by blast
      qed
      with Cons.IH [of ?d2] show ?thesis unfolding unfold by blast
    qed
  qed
qed

lemma step_keys:
  "fst ` set (wsSubscribers (fst (step s e)))
     \<subseteq> fst ` set (wsSubscribers s) \<union> set (advertised_keys [e])"
proof (cases e)
  case (Message c m rnd)
  then show ?thesis
    using onMessage_keys [of rnd "wsSubscribers s" "advertising_of s c"
        "WSContext (allocated s) c" m c]
    by (simp add: Let_def)
next
  case (Close c)
  then show ?thesis
    using onClose_loop_keys [of "for_in_keys (wsSubscribers s)" "wsSubscribers s"
        "WSContext (allocated s) c"]
    by (auto simp: onClose_def)
qed auto

lemma advertised_keys_Cons:
  "set (advertised_keys (e # es)) = set (advertised_keys [e]) \<union> set (advertised_keys es)"
  by (induction "e # es" rule: advertised_keys.induct) (auto split: option.splits)

lemma run_keys:
  "fst ` set (wsSubscribers (fst (run s evs)))
     \<subseteq> fst ` set (wsSubscribers s) \<union> set (advertised_keys evs)"
proof (induction evs arbitrary: s)
  case Nil
  then show ?case by simp
next
  case (Cons e evs)
  obtain s1 out1 where st: "step s e = (s1, out1)" by (cases "step s e")
  obtain s2 out2 where rn: "run s1 evs = (s2, out2)" by (cases "run s1 evs")
  have r: "run s (e # evs) = (s2, out1 @ out2)" using st rn by simp
  from Cons.IH [of s1] rn
  have "fst ` set (wsSubscribers s2) \<subseteq> fst ` set (wsSubscribers s1) \<union> set (advertised_keys evs)"
    by simp
  moreover from step_keys [of s e] st
  have "fst ` set (wsSubscribers s1) \<subseteq> fst ` set (wsSubscribers s) \<union> set (advertised_keys [e])"
    by simp
  ultimately show ?case unfolding r advertised_keys_Cons [of e evs] by auto
qed

lemma advertised_key_nonempty:
  assumes "random_ok e" and "string_code e"
  shows "[] \<notin> set (advertised_keys [e])"
proof (cases e)
  case (Message c m rnd)
  show ?thesis
  proof (cases m)
    case (Advertise code)
    from assms Message have generated: "randomCode rnd 6 \<noteq> []"
      using randomCode_nonempty [of rnd] by simp
    show ?thesis
    proof (cases code)
      case None
      with Message Advertise generated show ?thesis by (simp add: data_code_def)
    next
      case (Some v)
      with assms(2) Message Advertise obtain s where "v = JString s" by (cases v) auto
      with Some Message Advertise generated show ?thesis by (simp add: data_code_def)
    qed
  qed (use Message in auto)
qed auto

lemma advertised_keys_nonempty:
  "\<forall>e \<in> set evs. random_ok e \<and> string_code e \<Longrightarrow> [] \<notin> set (advertised_keys evs)"
proof (induction evs)
  case Nil
  then show ?case by simp
next
  case (Cons e evs)
  then have "[] \<notin> set (advertised_keys [e])" and "[] \<notin> set (advertised_keys evs)"
    using advertised_key_nonempty [of e] by simp_all
  then show ?case unfolding advertised_keys_Cons [of e evs] by simp
qed

lemma step_other_connection:
  "\<not> advertise_by c e \<Longrightarrow> advertising_of (fst (step s e)) c = advertising_of s c"
proof (cases e)
  case (Message c' m rnd)
  assume "\<not> advertise_by c e"
  with Message show ?thesis
    by (cases m) (auto simp: Let_def split: option.splits jsvalue.splits)
qed auto

lemma run_never_advertised:
  "\<forall>e \<in> set evs. \<not> advertise_by c e \<Longrightarrow>
   advertising_of (fst (run s evs)) c = advertising_of s c"
proof (induction evs arbitrary: s)
  case Nil
  then show ?case by simp
next
  case (Cons e evs)
  obtain s1 out1 where st: "step s e = (s1, out1)" by (cases "step s e")
  obtain s2 out2 where rn: "run s1 evs = (s2, out2)" by (cases "run s1 evs")
  have r: "run s (e # evs) = (s2, out1 @ out2)" using st rn by simp
  have "advertising_of s1 c = advertising_of s c"
    using step_other_connection [of c e s] Cons.prems st by simp
  moreover have "advertising_of s2 c = advertising_of s1 c"
    using Cons.IH [of s1] Cons.prems rn by simp
  ultimately show ?case unfolding r by simp
qed

text \<open>
  What holds of the keys. After any sequence of events from the initial state every
  key of the directory is the property key of the code of an \<open>advertise\<close> message
  among the events; a \<open>subscribe\<close> or \<open>location\<close> message leaves the set of keys as
  it is. When moreover every \<open>advertise\<close> message carries a string or no code, and
  \<open>Math.random\<close> returns numbers in \<open>[0, 1)\<close>, the empty string is not a key, and a
  connection that has sent no \<open>advertise\<close> message delivers nothing with a
  \<open>location\<close> message.
\<close>

lemma keys_come_from_advertise:
  "fst ` set (wsSubscribers (fst (run init evs))) \<subseteq> set (advertised_keys evs)"
  "fst ` set (wsSubscribers (fst (step s (Message c (Subscribe code) rnd))))
     = fst ` set (wsSubscribers s)"
  "fst ` set (wsSubscribers (fst (step s (Message c (Location location route) rnd))))
     = fst ` set (wsSubscribers s)"
proof -
  show "fst ` set (wsSubscribers (fst (run init evs))) \<subseteq> set (advertised_keys evs)"
    using run_keys [of init evs] by (simp add: init_def)
  show "fst ` set (wsSubscribers (fst (step s (Message c (Subscribe code) rnd))))
           = fst ` set (wsSubscribers s)"
    using onMessage_keep_keys(1) [of rnd "wsSubscribers s" "advertising_of s c"
        "WSContext (allocated s) c" code]
    by (simp add: Let_def)
  show "fst ` set (wsSubscribers (fst (step s (Message c (Location location route) rnd))))
           = fst ` set (wsSubscribers s)"
    using onMessage_keep_keys(2) [of rnd "wsSubscribers s" "advertising_of s c"
        "WSContext (allocated s) c" location route]
    by (simp add: Let_def)
qed

lemma string_codes_no_empty_key:
  assumes "\<forall>e \<in> set evs. random_ok e \<and> string_code e"
  shows "[] \<notin> fst ` set (wsSubscribers (fst (run init evs)))"
    and "\<forall>e \<in> set evs. \<not> advertise_by c e \<Longrightarrow>
         advertising_of (fst (run init evs)) c = JString []
         \<and> snd (step (fst (run init evs)) (Message c (Location location route) rnd)) = []
         \<and> wsSubscribers (fst (step (fst (run init evs))
              (Message c (Location location route) rnd)))
             = wsSubscribers (fst (run init evs))"
proof -
  show nonempty: "[] \<notin> fst ` set (wsSubscribers (fst (run init evs)))"
    using keys_come_from_advertise(1) [of evs] advertised_keys_nonempty [OF assms] by blast
  assume never: "\<forall>e \<in> set evs. \<not> advertise_by c e"
  have a: "advertising_of (fst (run init evs)) c = JString []"
    using run_never_advertised [OF never, of init] by (simp add: init_def)
  have "map_of (wsSubscribers (fst (run init evs))) [] = None"
    using nonempty by (simp add: map_of_eq_None_iff)
  then have "get_prop (wsSubscribers (fst (run init evs))) [] = None"
    by (simp add: get_prop_None_iff empty_not_inherited)
  with a show "advertising_of (fst (run init evs)) c = JString []
         \<and> snd (step (fst (run init evs)) (Message c (Location location route) rnd)) = []
         \<and> wsSubscribers (fst (step (fst (run init evs))
              (Message c (Location location route) rnd)))
             = wsSubscribers (fst (run init evs))"
    by (simp add: Let_def)
qed

text \<open>
  Claim C10, at an input where the code departs from it. The handler takes
  \<open>data.code\<close> as \<open>JSON.parse\<close> returns it. The empty array is truthy, so
  \<open>data.code || randomCode()\<close> keeps it, and as a property key it is the empty
  string: connection 1 advertising the code \<open>[]\<close> creates the key \<open>''''\<close>, and
  connection 2 subscribing to \<open>[]\<close> joins its list. Connection 3 has never
  advertised, its advertising code is still the initial empty string, and its
  \<open>location\<close> message is delivered to connection 2.
\<close>

theorem array_code_makes_empty_key:
  "wsSubscribers (fst (run init
      [Open 1, Message 1 (Advertise (Some (JArray []))) (\<lambda>i. (0, 0)),
       Open 2, Message 2 (Subscribe (Some (JArray []))) (\<lambda>i. (0, 0)), Open 3]))
     = [([], Arr [WSContext 3 2])]
   \<and> advertising_of (fst (run init
      [Open 1, Message 1 (Advertise (Some (JArray []))) (\<lambda>i. (0, 0)),
       Open 2, Message 2 (Subscribe (Some (JArray []))) (\<lambda>i. (0, 0)), Open 3])) 3
     = JString []
   \<and> snd (step (fst (run init
      [Open 1, Message 1 (Advertise (Some (JArray []))) (\<lambda>i. (0, 0)),
       Open 2, Message 2 (Subscribe (Some (JArray []))) (\<lambda>i. (0, 0)), Open 3]))
      (Message 3 (Location ''here'' ''route'') (\<lambda>i. (0, 0))))
     = [(2, LocationUpdate ''here'' ''route'')]"
  by code_simp

section \<open>Directories that hold only subscriber lists\<close>

text \<open>
  In every state the server reaches the keys of the association list are distinct, as
  the keys of an object are; and as long as no code advertised has the key of a
  property of \<open>Object.prototype\<close>, every value is an array. These are the two
  hypotheses of the lemmas on closing.
\<close>

lemma set_prop_lists:
  assumes "distinct (map fst d)" and "\<forall>(k, v) \<in> set d. v \<noteq> Inherited"
  shows "distinct (map fst (set_prop d key (Arr subs)))
       \<and> (\<forall>(k, v) \<in> set (set_prop d key (Arr subs)). v \<noteq> Inherited)"
proof -
  have "set (AList.update key (Arr subs) d) \<subseteq> insert (key, Arr subs) (set d)"
    by (rule set_update_subset)
  with assms(2) have "\<forall>(k, v) \<in> set (AList.update key (Arr subs) d). v \<noteq> Inherited"
    by auto
  with assms show ?thesis by (auto simp: set_prop_def distinct_update)
qed

lemma onMessage_lists:
  assumes "distinct (map fst d)" and "\<forall>(k, v) \<in> set d. v \<noteq> Inherited"
    and "set (advertised_keys [Message c m rnd]) \<inter> set object_prototype_names = {}"
  shows "distinct (map fst (dir (onMessage rnd d a ws m)))
       \<and> (\<forall>(k, v) \<in> set (dir (onMessage rnd d a ws m)). v \<noteq> Inherited)"
proof (cases m)
  case (Advertise code)
  define v where "v = (case data_code code of Some v \<Rightarrow> v | None \<Rightarrow> JString (randomCode rnd 6))"
  show ?thesis
  proof (cases "ToString v")
    case None
    with Advertise assms show ?thesis by (simp add: Let_def v_def)
  next
    case (Some key)
    have fresh: "key \<notin> set object_prototype_names"
      using assms(3) Advertise Some by (simp add: v_def)
    have "\<exists>subs. (case get_prop d key of Some v \<Rightarrow> v | None \<Rightarrow> Arr []) = Arr subs"
    proof (cases "map_of d key")
      case None
      with fresh show ?thesis by (simp add: get_prop_def)
    next
      case (Some w)
      then have "(key, w) \<in> set d" by (rule map_of_SomeD)
      with assms(2) have "w \<noteq> Inherited" by auto
      with Some show ?thesis by (cases w) (simp_all add: get_prop_def)
    qed
    then obtain subs where "(case get_prop d key of Some v \<Rightarrow> v | None \<Rightarrow> Arr []) = Arr subs"
      by blast
    then have "dir (onMessage rnd d a ws m) = set_prop d key (Arr subs)"
      using Advertise Some by (simp add: Let_def v_def)
    then show ?thesis using set_prop_lists [OF assms(1,2)] by simp
  qed
next
  case (Subscribe code)
  show ?thesis
  proof (cases "\<exists>v key subs. data_code code = Some v \<and> ToString v = Some key
                  \<and> get_prop d key = Some (Arr subs)")
    case True
    then obtain v key subs where c: "data_code code = Some v" "ToString v = Some key"
        "get_prop d key = Some (Arr subs)"
      by blast
    then have own: "map_of d key \<noteq> None" by (simp add: get_prop_Arr_iff)
    have "dir (onMessage rnd d a ws m) = set_prop d key (Arr (subs @ [ws]))"
      using Subscribe c own by (simp add: set_prop_own)
    then show ?thesis using set_prop_lists [OF assms(1,2)] by simp
  next
    case False
    then have "dir (onMessage rnd d a ws m) = d"
      using Subscribe by (auto split: option.splits jsvalue.splits)
    with assms show ?thesis by simp
  qed
next
  case (Location l r)
  then have "dir (onMessage rnd d a ws m) = d"
    by (auto split: option.splits jsvalue.splits)
  with assms show ?thesis by simp
next
  case Other
  with assms show ?thesis by simp
qed

lemma onClose_loop_lists:
  assumes "distinct (map fst d)" and "\<forall>(k, v) \<in> set d. v \<noteq> Inherited"
  shows "distinct (map fst (fst (onClose_loop codes d ws)))
       \<and> (\<forall>(k, v) \<in> set (fst (onClose_loop codes d ws)). v \<noteq> Inherited)"
  using assms
proof (induction codes arbitrary: d)
  case Nil
  then show ?case by simp
next
  case (Cons code codes)
  show ?case
  proof (cases "get_prop d code")
    case None
    then show ?thesis using Cons.IH [OF Cons.prems] by simp
  next
    case (Some v)
    show ?thesis
    proof (cases v)
      case Inherited
      with Some Cons.prems show ?thesis by simp
    next
      case (Arr subs)
      let ?remaining = "filter (\<lambda>b. identity b \<noteq> identity ws) subs"
      let ?d1 = "set_prop d code (Arr ?remaining)"
      let ?d2 = "if length ?remaining = 0 then AList.delete code ?d1 else ?d1"
      have unfold: "onClose_loop (code # codes) d ws = onClose_loop codes ?d2 ws"
        using Some Arr by (simp add: Let_def)
      have d1: "distinct (map fst ?d1)" "\<forall>(k, v) \<in> set ?d1. v \<noteq> Inherited"
        using set_prop_lists [OF Cons.prems, of code ?remaining] by auto
      have "distinct (map fst (AList.delete code ?d1))"
        using d1(1) by (rule distinct_delete)
      moreover have "\<forall>(k, v) \<in> set (AList.delete code ?d1). v \<noteq> Inherited"
        using d1(2) set_delete_subset [of code ?d1] by blast
      ultimately have "distinct (map fst ?d2)" and "\<forall>(k, v) \<in> set ?d2. v \<noteq> Inherited"
        using d1 by (cases "length ?remaining = 0"; simp)+
      then show ?thesis unfolding unfold by (rule Cons.IH)
    qed
  qed
qed

lemma step_lists:
  assumes "distinct (map fst (wsSubscribers s))"
    and "\<forall>(k, v) \<in> set (wsSubscribers s). v \<noteq> Inherited"
    and "set (advertised_keys [e]) \<inter> set object_prototype_names = {}"
  shows "distinct (map fst (wsSubscribers (fst (step s e))))
       \<and> (\<forall>(k, v) \<in> set (wsSubscribers (fst (step s e))). v \<noteq> Inherited)"
proof (cases e)
  case (Open c)
  with assms show ?thesis by simp
next
  case (Message c m rnd)
  with assms onMessage_lists [of "wsSubscribers s" c m rnd "advertising_of s c"
      "WSContext (allocated s) c"]
  show ?thesis by (simp add: Let_def)
next
  case (Close c)
  with onClose_loop_lists [OF assms(1,2), of "for_in_keys (wsSubscribers s)"
      "WSContext (allocated s) c"]
  show ?thesis by (simp add: onClose_def)
qed

lemma run_lists:
  assumes "distinct (map fst (wsSubscribers s))"
    and "\<forall>(k, v) \<in> set (wsSubscribers s). v \<noteq> Inherited"
    and "set (advertised_keys evs) \<inter> set object_prototype_names = {}"
  shows "distinct (map fst (wsSubscribers (fst (run s evs))))
       \<and> (\<forall>(k, v) \<in> set (wsSubscribers (fst (run s evs))). v \<noteq> Inherited)"
  using assms
proof (induction evs arbitrary: s)
  case Nil
  then show ?case by simp
next
  case (Cons e evs)
  obtain s1 out1 where st: "step s e = (s1, out1)" by (cases "step s e")
  obtain s2 out2 where rn: "run s1 evs = (s2, out2)" by (cases "run s1 evs")
  have r: "run s (e # evs) = (s2, out1 @ out2)" using st rn by simp
  have head: "set (advertised_keys [e]) \<inter> set object_prototype_names = {}"
    and tail: "set (advertised_keys evs) \<inter> set object_prototype_names = {}"
    using Cons.prems(3) unfolding advertised_keys_Cons [of e evs] by auto
  have s1: "distinct (map fst (wsSubscribers s1))"
      "\<forall>(k, v) \<in> set (wsSubscribers s1). v \<noteq> Inherited"
    using step_lists [OF Cons.prems(1,2) head] st by auto
  show ?case unfolding r using Cons.IH [OF s1 tail] rn by simp
qed

lemma reachable_lists:
  assumes "set (advertised_keys evs) \<inter> set object_prototype_names = {}"
  shows "distinct (map fst (wsSubscribers (fst (run init evs))))
       \<and> (\<forall>(k, v) \<in> set (wsSubscribers (fst (run init evs))). v \<noteq> Inherited)"
  using run_lists [of init evs] assms by (simp add: init_def)

end
